theory Spec2Isabelle
  imports Main
begin

section \<open>The Jobivo aggregator: offer store, expiry and filtering\<close>

text \<open>
  A shallow embedding of \<^verbatim>\<open>jobivo_aggregator.py\<close>. The module keeps three globals:
  the fixed list \<^verbatim>\<open>_fake_jobs\<close> and the two dictionaries \<^verbatim>\<open>_saved_jobs\<close> and
  \<^verbatim>\<open>_hidden_jobs\<close> from job id to the time of the action. The four handlers read the
  clock once (\<^verbatim>\<open>datetime.utcnow()\<close>); here the value read is the parameter \<open>now\<close>, a
  number of microseconds, and the globals are the fields of a record that every handler
  takes and returns.
\<close>

subsection \<open>Python values\<close>

datatype error = KeyError

text \<open>
  A \<^verbatim>\<open>dict\<close> with string keys, as the list of its items in insertion order.
  \<^verbatim>\<open>k in d\<close>, \<^verbatim>\<open>d[k] = v\<close> (an existing key keeps its place, a new one goes last) and
  \<^verbatim>\<open>del d[k]\<close> (which raises \<^verbatim>\<open>KeyError\<close> on a missing key).
\<close>

type_synonym 'v dict = "(string \<times> 'v) list"

definition dict_contains :: "string \<Rightarrow> 'v dict \<Rightarrow> bool" where
  "dict_contains k d = (k \<in> set (map fst d))"

fun dict_set :: "string \<Rightarrow> 'v \<Rightarrow> 'v dict \<Rightarrow> 'v dict" where
  "dict_set k v [] = [(k, v)]"
| "dict_set k v ((k', v') # d) =
     (if k' = k then (k, v) # d else (k', v') # dict_set k v d)"

definition dict_del :: "string \<Rightarrow> 'v dict \<Rightarrow> error + 'v dict" where
  "dict_del k d =
     (if dict_contains k d then Inr (filter (\<lambda>(k', v). k' \<noteq> k) d) else Inl KeyError)"

text \<open>
  \<^verbatim>\<open>xs[:k]\<close>: a negative stop counts from the end of the list and is clamped at the
  start of the list.
\<close>

definition slice_to :: "int \<Rightarrow> 'a list \<Rightarrow> 'a list" where
  "slice_to k xs =
     (if k < 0 then take (nat (int (length xs) + k)) xs else take (nat k) xs)"

text \<open>
  \<^verbatim>\<open>str.lower()\<close> on ASCII text (a character outside \<^verbatim>\<open>A\<close>..\<^verbatim>\<open>Z\<close> is kept), and the
  substring test \<^verbatim>\<open>needle in hay\<close>.
\<close>

definition lower_char :: "char \<Rightarrow> char" where
  "lower_char c =
     (let n = (of_char c :: nat) in if 65 \<le> n \<and> n \<le> 90 then char_of (n + 32) else c)"

definition lower :: "string \<Rightarrow> string" where
  "lower s = map lower_char s"

fun starts_with :: "string \<Rightarrow> string \<Rightarrow> bool" where
  "starts_with hay [] = True"
| "starts_with [] (c # cs) = False"
| "starts_with (h # hs) (c # cs) = (h = c \<and> starts_with hs cs)"

fun str_in :: "string \<Rightarrow> string \<Rightarrow> bool" where
  "str_in needle [] = (needle = [])"
| "str_in needle (h # hs) = (starts_with (h # hs) needle \<or> str_in needle hs)"

text \<open>\<^verbatim>\<open>f"{i}"\<close> for a natural number: its decimal digits.\<close>

fun str_nat :: "nat \<Rightarrow> string" where
  "str_nat n =
     (if n < 10 then [char_of (48 + n)] else str_nat (n div 10) @ [char_of (48 + n mod 10)])"

declare str_nat.simps [simp del]

subsection \<open>The store\<close>

record offer =
  id_offer :: string
  title :: string
  company :: string
  location :: string
  description :: string
  source :: string
  url :: string

record store =
  fake_jobs :: "offer list"
  saved_jobs :: "int dict"
  hidden_jobs :: "int dict"

text \<open>The comprehension that builds \<^verbatim>\<open>_fake_jobs\<close>, for \<^verbatim>\<open>i in range(1, 21)\<close>.\<close>

definition fake_job :: "nat \<Rightarrow> offer" where
  "fake_job i =
     \<lparr> id_offer = ''job-'' @ str_nat i,
       title = ''Sample Job '' @ str_nat i,
       company = ''ExampleCorp'',
       location = ''Zurich'',
       description = ''This is a sample job offer.'',
       source = ''demo'',
       url = ''https://example.com/job-'' @ str_nat i \<rparr>"

definition init_store :: store where
  "init_store = \<lparr> fake_jobs = map fake_job [1..<21], saved_jobs = [], hidden_jobs = [] \<rparr>"

text \<open>\<^verbatim>\<open>timedelta(days=90)\<close> in microseconds.\<close>

definition days90 :: int where
  "days90 = 90 * 86400 * 1000000"

subsection \<open>Removing expired entries\<close>

text \<open>
  The loop at the head of both read handlers, for one dictionary:
  \<^verbatim>\<open>expired_ids = [job_id for job_id, ts in job_dict.items() if ts < cutoff]\<close>, then
  \<^verbatim>\<open>del job_dict[job_id]\<close> for each of them. \<open>purge\<close> runs it on \<^verbatim>\<open>_saved_jobs\<close>, then
  on \<^verbatim>\<open>_hidden_jobs\<close>.
\<close>

definition expired_ids :: "int \<Rightarrow> int dict \<Rightarrow> string list" where
  "expired_ids cutoff job_dict = map fst (filter (\<lambda>(job_id, ts). ts < cutoff) job_dict)"

fun del_all :: "string list \<Rightarrow> 'v dict \<Rightarrow> error + 'v dict" where
  "del_all [] job_dict = Inr job_dict"
| "del_all (job_id # ids) job_dict =
     (case dict_del job_id job_dict of
        Inl e \<Rightarrow> Inl e
      | Inr d' \<Rightarrow> del_all ids d')"

definition purge_dict :: "int \<Rightarrow> int dict \<Rightarrow> error + int dict" where
  "purge_dict cutoff job_dict = del_all (expired_ids cutoff job_dict) job_dict"

definition purge :: "int \<Rightarrow> store \<Rightarrow> error + store" where
  "purge cutoff s =
     (case purge_dict cutoff (saved_jobs s) of
        Inl e \<Rightarrow> Inl e
      | Inr saved' \<Rightarrow>
          (case purge_dict cutoff (hidden_jobs s) of
             Inl e \<Rightarrow> Inl e
           | Inr hidden' \<Rightarrow> Inr (s\<lparr>saved_jobs := saved', hidden_jobs := hidden'\<rparr>)))"

subsection \<open>The handlers\<close>

definition available :: "store \<Rightarrow> offer list" where
  "available s =
     filter (\<lambda>job. \<not> dict_contains (id_offer job) (saved_jobs s) \<and>
                   \<not> dict_contains (id_offer job) (hidden_jobs s)) (fake_jobs s)"

definition list_offers :: "int \<Rightarrow> int \<Rightarrow> store \<Rightarrow> error + (offer list \<times> store)" where
  "list_offers now limit s =
     (let cutoff = now - days90 in
      case purge cutoff s of
        Inl e \<Rightarrow> Inl e
      | Inr s' \<Rightarrow> Inr (slice_to limit (available s'), s'))"

definition matches :: "string \<Rightarrow> string \<Rightarrow> store \<Rightarrow> offer \<Rightarrow> bool" where
  "matches q loc s job =
     (if dict_contains (id_offer job) (saved_jobs s) \<or>
         dict_contains (id_offer job) (hidden_jobs s) then False
      else if q \<noteq> [] \<and>
         \<not> str_in (lower q) (lower (title job) @ '' '' @ lower (description job)) then False
      else if loc \<noteq> [] \<and> \<not> str_in (lower loc) (lower (location job)) then False
      else True)"

definition search_offers ::
  "int \<Rightarrow> string \<Rightarrow> string \<Rightarrow> int \<Rightarrow> string \<Rightarrow> int \<Rightarrow> store \<Rightarrow> error + (offer list \<times> store)" where
  "search_offers now q loc radius pensum limit s =
     (let cutoff = now - days90 in
      case purge cutoff s of
        Inl e \<Rightarrow> Inl e
      | Inr s' \<Rightarrow> Inr (slice_to limit (filter (matches q loc s') (fake_jobs s')), s'))"

definition save_offer :: "int \<Rightarrow> offer \<Rightarrow> store \<Rightarrow> string \<times> store" where
  "save_offer now payload s =
     (let job_id = id_offer payload in
      (''Job saved successfully'', s\<lparr>saved_jobs := dict_set job_id now (saved_jobs s)\<rparr>))"

definition hide_offer :: "int \<Rightarrow> offer \<Rightarrow> store \<Rightarrow> string \<times> store" where
  "hide_offer now payload s =
     (let job_id = id_offer payload in
      (''Job hidden successfully'', s\<lparr>hidden_jobs := dict_set job_id now (hidden_jobs s)\<rparr>))"

text \<open>
  The routes of the application: \<^verbatim>\<open>GET /offers\<close>, \<^verbatim>\<open>GET /search\<close>, \<^verbatim>\<open>POST /save\<close> and
  \<^verbatim>\<open>POST /hide\<close>, each with the arguments its handler takes. \<open>serve\<close> handles a
  sequence of requests, each with the time the clock shows when it is handled, and
  stops at the first exception.
\<close>

datatype request =
    ListOffers int
  | SearchOffers string string int string int
  | SaveOffer offer
  | HideOffer offer

datatype response = Offers "offer list" | Message string

fun route :: "int \<Rightarrow> request \<Rightarrow> store \<Rightarrow> error + (response \<times> store)" where
  "route now (ListOffers limit) s =
     (case list_offers now limit s of
        Inl e \<Rightarrow> Inl e
      | Inr (res, s') \<Rightarrow> Inr (Offers res, s'))"
| "route now (SearchOffers q loc radius pensum limit) s =
     (case search_offers now q loc radius pensum limit s of
        Inl e \<Rightarrow> Inl e
      | Inr (res, s') \<Rightarrow> Inr (Offers res, s'))"
| "route now (SaveOffer payload) s =
     (case save_offer now payload s of (msg, s') \<Rightarrow> Inr (Message msg, s'))"
| "route now (HideOffer payload) s =
     (case hide_offer now payload s of (msg, s') \<Rightarrow> Inr (Message msg, s'))"

fun serve :: "(int \<times> request) list \<Rightarrow> store \<Rightarrow> error + (response list \<times> store)" where
  "serve [] s = Inr ([], s)"
| "serve ((now, req) # reqs) s =
     (case route now req s of
        Inl e \<Rightarrow> Inl e
      | Inr (resp, s') \<Rightarrow>
          (case serve reqs s' of
             Inl e \<Rightarrow> Inl e
           | Inr (resps, s'') \<Rightarrow> Inr (resp # resps, s'')))"

subsection \<open>Notions of the specification\<close>

text \<open>
  A dictionary holds each key once; \<open>wf_store\<close> says so of both dictionaries of the
  store. It holds of the initial store and every handler keeps it.
\<close>

definition wf_store :: "store \<Rightarrow> bool" where
  "wf_store s = (distinct (map fst (saved_jobs s)) \<and> distinct (map fst (hidden_jobs s)))"

text \<open>
  The purge as the specification words it: every entry whose timestamp is strictly
  older than the cutoff is removed, the others stay as they are.
\<close>

definition live :: "int \<Rightarrow> int dict \<Rightarrow> int dict" where
  "live cutoff job_dict = filter (\<lambda>(job_id, ts). \<not> ts < cutoff) job_dict"

definition purged :: "int \<Rightarrow> store \<Rightarrow> store" where
  "purged cutoff s =
     s\<lparr>saved_jobs := live cutoff (saved_jobs s), hidden_jobs := live cutoff (hidden_jobs s)\<rparr>"

text \<open>\<open>needle\<close> occurs in \<open>hay\<close> as a contiguous run of characters.\<close>

definition substring :: "string \<Rightarrow> string \<Rightarrow> bool" where
  "substring needle hay = (\<exists>ps ss. hay = ps @ needle @ ss)"

text \<open>
  The text filters of \<open>search\<close> as the specification words them: a non-empty query
  occurs, case-insensitively, in "title + space + description", and a non-empty
  location occurs, case-insensitively, in the location.
\<close>

definition text_match :: "string \<Rightarrow> string \<Rightarrow> offer \<Rightarrow> bool" where
  "text_match q loc job =
     ((q = [] \<or> substring (lower q) (lower (title job @ '' '' @ description job))) \<and>
      (loc = [] \<or> substring (lower loc) (lower (location job))))"

section \<open>Properties\<close>

subsection \<open>Dictionaries\<close>

lemma dict_contains_iff: "dict_contains k d \<longleftrightarrow> (\<exists>v. (k, v) \<in> set d)"
  by (force simp: dict_contains_def)

lemma map_fst_dict_set:
  "map fst (dict_set k v d) = (if k \<in> set (map fst d) then map fst d else map fst d @ [k])"
  by (induction d) (force split: if_splits)+

lemma keys_dict_set: "set (map fst (dict_set k v d)) = insert k (set (map fst d))"
  unfolding map_fst_dict_set by auto

lemma dict_contains_dict_set: "dict_contains k' (dict_set k v d) \<longleftrightarrow> k' = k \<or> dict_contains k' d"
  unfolding dict_contains_def keys_dict_set by auto

lemma distinct_dict_set: "distinct (map fst d) \<Longrightarrow> distinct (map fst (dict_set k v d))"
proof (induction d)
  case Nil
  then show ?case by simp
next
  case (Cons p d)
  obtain k' v' where p: "p = (k', v')" by (cases p)
  show ?case
  proof (cases "k' = k")
    case True
    with Cons.prems p show ?thesis by simp
  next
    case False
    have "k' \<notin> set (map fst (dict_set k v d))"
      using Cons.prems p False unfolding keys_dict_set by simp
    with Cons p False show ?thesis by simp
  qed
qed

lemma map_of_dict_set: "map_of (dict_set k v d) = (map_of d)(k \<mapsto> v)"
  by (induction d) (auto simp: fun_eq_iff)

lemma dict_set_twice: "dict_set k v2 (dict_set k v1 d) = dict_set k v2 d"
  by (induction d) auto

lemma length_dict_set:
  "length (dict_set k v d) = (if dict_contains k d then length d else Suc (length d))"
  by (induction d) (force simp: dict_contains_def)+

lemma others_dict_set:
  "filter (\<lambda>(k', v'). k' \<noteq> k) (dict_set k v d) = filter (\<lambda>(k', v'). k' \<noteq> k) d"
  by (induction d) auto

lemma del_all_ok:
  "distinct ks \<Longrightarrow> set ks \<subseteq> set (map fst d) \<Longrightarrow>
   del_all ks d = Inr (filter (\<lambda>(k, v). k \<notin> set ks) d)"
proof (induction ks arbitrary: d)
  case Nil
  then show ?case by simp
next
  case (Cons k ks)
  let ?d = "filter (\<lambda>(k', v). k' \<noteq> k) d"
  have del: "dict_del k d = Inr ?d"
    using Cons.prems(2) by (simp add: dict_del_def dict_contains_def)
  have "set ks \<subseteq> set (map fst ?d)"
    using Cons.prems by force
  with Cons.IH [of ?d] Cons.prems(1)
  have "del_all ks ?d = Inr (filter (\<lambda>(k, v). k \<notin> set ks) ?d)" by simp
  moreover have "filter (\<lambda>(k, v). k \<notin> set ks) ?d = filter (\<lambda>(k', v). k' \<notin> set (k # ks)) d"
    by (induction d) auto
  ultimately show ?case using del by simp
qed

lemma purge_dict_ok:
  assumes "distinct (map fst d)"
  shows "purge_dict cutoff d = Inr (live cutoff d)"
proof -
  have 1: "distinct (expired_ids cutoff d)"
    unfolding expired_ids_def using assms by (rule distinct_map_filter)
  have 2: "set (expired_ids cutoff d) \<subseteq> set (map fst d)"
    unfolding expired_ids_def by auto
  have 3: "filter (\<lambda>(k, v). k \<notin> set (expired_ids cutoff d)) d = live cutoff d"
    unfolding live_def
  proof (rule filter_cong [OF refl])
    fix p assume p: "p \<in> set d"
    obtain k ts where kt: "p = (k, ts)" by (cases p)
    have "k \<in> set (expired_ids cutoff d) \<longleftrightarrow> ts < cutoff"
    proof
      assume "k \<in> set (expired_ids cutoff d)"
      then obtain ts' where "(k, ts') \<in> set d" "ts' < cutoff"
        unfolding expired_ids_def by auto
      moreover have "ts' = ts"
        using assms \<open>(k, ts') \<in> set d\<close> p kt by (auto dest: eq_key_imp_eq_value)
      ultimately show "ts < cutoff" by simp
    next
      assume "ts < cutoff"
      with p kt show "k \<in> set (expired_ids cutoff d)"
        unfolding expired_ids_def by force
    qed
    with kt show "(case p of (k, v) \<Rightarrow> k \<notin> set (expired_ids cutoff d)) =
                  (case p of (job_id, ts) \<Rightarrow> \<not> ts < cutoff)"
      by simp
  qed
  show ?thesis
    unfolding purge_dict_def using del_all_ok [OF 1 2] 3 by simp
qed

lemma purge_ok: "wf_store s \<Longrightarrow> purge cutoff s = Inr (purged cutoff s)"
  by (simp add: purge_def purged_def wf_store_def purge_dict_ok)

lemma wf_purged: "wf_store s \<Longrightarrow> wf_store (purged cutoff s)"
  by (simp add: wf_store_def purged_def live_def distinct_map_filter)

lemma list_offers_ok:
  "wf_store s \<Longrightarrow>
   list_offers now limit s =
     Inr (slice_to limit (available (purged (now - days90) s)), purged (now - days90) s)"
  by (simp add: list_offers_def purge_ok Let_def)

lemma search_offers_ok:
  "wf_store s \<Longrightarrow>
   search_offers now q loc radius pensum limit s =
     Inr (slice_to limit (filter (matches q loc (purged (now - days90) s)) (fake_jobs s)),
          purged (now - days90) s)"
  by (simp add: search_offers_def purge_ok purged_def Let_def)

lemma set_slice_to: "set (slice_to k xs) \<subseteq> set xs"
  by (simp add: slice_to_def set_take_subset)

lemma slice_to_nonneg: "0 \<le> k \<Longrightarrow> slice_to k xs = take (nat k) xs"
  by (simp add: slice_to_def)

lemma slice_to_all: "int (length xs) \<le> k \<Longrightarrow> slice_to k xs = xs"
  by (simp add: slice_to_def)

lemma starts_with_iff: "starts_with hay needle \<longleftrightarrow> (\<exists>ss. hay = needle @ ss)"
  by (induction hay needle rule: starts_with.induct) auto

lemma str_in_iff: "str_in needle hay \<longleftrightarrow> substring needle hay"
  unfolding substring_def
proof (induction hay)
  case Nil
  then show ?case by auto
next
  case (Cons h hs)
  have "(\<exists>ps ss. h # hs = ps @ needle @ ss) \<longleftrightarrow>
        (\<exists>ss. h # hs = needle @ ss) \<or> (\<exists>ps ss. hs = ps @ needle @ ss)"
    (is "?L \<longleftrightarrow> ?A \<or> ?B")
  proof
    assume ?L
    then obtain ps ss where e: "h # hs = ps @ needle @ ss" by blast
    show "?A \<or> ?B"
    proof (cases ps)
      case Nil
      with e show ?thesis by auto
    next
      case (Cons p ps')
      with e have "hs = ps' @ needle @ ss" by simp
      then show ?thesis by blast
    qed
  next
    assume "?A \<or> ?B"
    then show ?L
    proof
      assume ?A
      then obtain ss where "h # hs = [] @ needle @ ss" by auto
      then show ?L by blast
    next
      assume ?B
      then obtain ps ss where "hs = ps @ needle @ ss" by blast
      then have "h # hs = (h # ps) @ needle @ ss" by simp
      then show ?L by blast
    qed
  qed
  with Cons show ?case by (simp add: starts_with_iff)
qed

subsection \<open>The read handlers on a well-formed store\<close>

lemma available_mem:
  "job \<in> set (available s) \<longleftrightarrow>
     job \<in> set (fake_jobs s) \<and> \<not> dict_contains (id_offer job) (saved_jobs s) \<and>
     \<not> dict_contains (id_offer job) (hidden_jobs s)"
  by (auto simp: available_def)

lemma lower_char_space: "lower_char (CHR '' '') = CHR '' ''"
  by code_simp

lemma matches_iff:
  "matches q loc s job \<longleftrightarrow>
     \<not> dict_contains (id_offer job) (saved_jobs s) \<and>
     \<not> dict_contains (id_offer job) (hidden_jobs s) \<and> text_match q loc job"
  by (auto simp: matches_def text_match_def str_in_iff lower_def lower_char_space)

lemma matches_no_filters:
  "matches [] [] s =
     (\<lambda>job. \<not> dict_contains (id_offer job) (saved_jobs s) \<and>
            \<not> dict_contains (id_offer job) (hidden_jobs s))"
  by (rule ext) (simp add: matches_def)

lemma filter_matches:
  "filter (matches q loc s) (fake_jobs s) = filter (text_match q loc) (available s)"
  by (simp add: available_def matches_iff [abs_def] conj_commute conj_left_commute)

lemma purge_init: "purge cutoff init_store = Inr init_store"
  by (simp add: purge_def purge_dict_def expired_ids_def init_store_def)

lemma available_init: "available init_store = map fake_job [1..<21]"
  by (simp add: available_def init_store_def dict_contains_def)

lemma list_offers_nonneg_limit:
  assumes "wf_store s" and "0 \<le> limit"
  shows "list_offers now limit s =
           Inr (take (nat limit) (available (purged (now - days90) s)), purged (now - days90) s)"
    and "int (length (take (nat limit) (available (purged (now - days90) s)))) \<le> limit"
  using assms by (simp_all add: list_offers_ok slice_to_nonneg)

lemma search_offers_nonneg_limit:
  assumes "wf_store s" and "0 \<le> limit"
  shows "search_offers now q loc radius pensum limit s =
           Inr (take (nat limit) (filter (text_match q loc) (available (purged (now - days90) s))),
                purged (now - days90) s)"
proof -
  have "fake_jobs (purged (now - days90) s) = fake_jobs s"
    by (simp add: purged_def)
  then have "filter (matches q loc (purged (now - days90) s)) (fake_jobs s) =
             filter (text_match q loc) (available (purged (now - days90) s))"
    using filter_matches [of q loc "purged (now - days90) s"] by simp
  with assms show ?thesis
    by (simp add: search_offers_ok slice_to_nonneg)
qed

lemma list_offers_zero_limit:
  "wf_store s \<Longrightarrow> list_offers now 0 s = Inr ([], purged (now - days90) s)"
  by (simp add: list_offers_ok slice_to_def)

lemma list_offers_large_limit:
  "wf_store s \<Longrightarrow> int (length (available (purged (now - days90) s))) \<le> limit \<Longrightarrow>
   list_offers now limit s = Inr (available (purged (now - days90) s), purged (now - days90) s)"
  by (simp add: list_offers_ok slice_to_all)

subsection \<open>Entries that stay and entries that go\<close>

lemma live_mem: "(k, t) \<in> set (live cutoff d) \<longleftrightarrow> (k, t) \<in> set d \<and> \<not> t < cutoff"
  by (auto simp: live_def)

lemma dict_contains_live:
  "dict_contains k (live cutoff d) \<longleftrightarrow> (\<exists>t. (k, t) \<in> set d \<and> \<not> t < cutoff)"
  by (simp add: dict_contains_iff live_mem)

lemma purged_fields:
  "fake_jobs (purged cutoff s) = fake_jobs s"
  "saved_jobs (purged cutoff s) = live cutoff (saved_jobs s)"
  "hidden_jobs (purged cutoff s) = live cutoff (hidden_jobs s)"
  by (simp_all add: purged_def)

lemma length_available: "length (available s) \<le> length (fake_jobs s)"
  by (simp add: available_def)

lemma retained_excludes:
  assumes "(k, t) \<in> set (saved_jobs s) \<or> (k, t) \<in> set (hidden_jobs s)"
    and "\<not> t < cutoff"
    and "job \<in> set (available (purged cutoff s))"
  shows "id_offer job \<noteq> k"
proof
  assume "id_offer job = k"
  with assms(3) have "\<not> dict_contains k (live cutoff (saved_jobs s))"
    and "\<not> dict_contains k (live cutoff (hidden_jobs s))"
    by (simp_all add: available_mem purged_fields)
  with assms(1,2) show False
    by (auto simp: dict_contains_live)
qed

lemma matches_available:
  "job \<in> set (filter (matches q loc s) (fake_jobs s)) \<Longrightarrow> job \<in> set (available s)"
  by (simp add: filter_matches)

lemma in_slice_to: "x \<in> set (slice_to k xs) \<Longrightarrow> x \<in> set xs"
  using set_slice_to [of k xs] by (rule subsetD)

lemma list_result_excludes:
  assumes "(k, t) \<in> set (saved_jobs s) \<or> (k, t) \<in> set (hidden_jobs s)"
    and "\<not> t < cutoff"
    and "job \<in> set (slice_to limit (available (purged cutoff s)))"
  shows "id_offer job \<noteq> k"
  using assms(1,2) in_slice_to [OF assms(3)] by (rule retained_excludes)

lemma search_result_excludes:
  assumes "(k, t) \<in> set (saved_jobs s) \<or> (k, t) \<in> set (hidden_jobs s)"
    and "\<not> t < cutoff"
    and "job \<in> set (slice_to limit (filter (matches q loc (purged cutoff s)) (fake_jobs s)))"
  shows "id_offer job \<noteq> k"
proof -
  have "job \<in> set (filter (matches q loc (purged cutoff s)) (fake_jobs s))"
    using assms(3) by (rule in_slice_to)
  then have "job \<in> set (filter (matches q loc (purged cutoff s)) (fake_jobs (purged cutoff s)))"
    by (simp only: purged_fields)
  then have "job \<in> set (available (purged cutoff s))"
    by (rule matches_available)
  with assms(1,2) show ?thesis
    by (rule retained_excludes)
qed

lemma reads_exclude_live:
  assumes wf: "wf_store s"
    and entry: "(k, t) \<in> set (saved_jobs s) \<or> (k, t) \<in> set (hidden_jobs s)"
    and live: "now - days90 \<le> t"
  shows "\<exists>res res' s'.
      list_offers now limit s = Inr (res, s') \<and>
      search_offers now q loc radius pensum limit s = Inr (res', s') \<and>
      (\<forall>job \<in> set res \<union> set res'. id_offer job \<noteq> k)"
proof -
  let ?c = "now - days90"
  let ?s' = "purged ?c s"
  let ?res = "slice_to limit (available ?s')"
  let ?res' = "slice_to limit (filter (matches q loc ?s') (fake_jobs s))"
  have l: "list_offers now limit s = Inr (?res, ?s')"
    using wf by (rule list_offers_ok)
  have r: "search_offers now q loc radius pensum limit s = Inr (?res', ?s')"
    using wf by (rule search_offers_ok)
  from live have n: "\<not> t < ?c" by simp
  have out: "\<forall>job \<in> set ?res \<union> set ?res'. id_offer job \<noteq> k"
  proof
    fix job
    assume "job \<in> set ?res \<union> set ?res'"
    then consider "job \<in> set ?res" | "job \<in> set ?res'" by blast
    then show "id_offer job \<noteq> k"
    proof cases
      case 1
      with entry n show ?thesis by (rule list_result_excludes)
    next
      case 2
      with entry n show ?thesis by (rule search_result_excludes)
    qed
  qed
  show ?thesis
    by (intro exI conjI) (rule l r out)+
qed

subsection \<open>Well-formed stores and sequences of requests\<close>

lemma wf_init: "wf_store init_store"
  by (simp add: wf_store_def init_store_def)

lemma wf_save: "wf_store s \<Longrightarrow> wf_store (snd (save_offer now p s))"
  by (simp add: wf_store_def save_offer_def distinct_dict_set)

lemma wf_hide: "wf_store s \<Longrightarrow> wf_store (snd (hide_offer now p s))"
  by (simp add: wf_store_def hide_offer_def distinct_dict_set)

lemma route_ok:
  assumes "wf_store s"
  shows "\<exists>resp s'. route now req s = Inr (resp, s') \<and> wf_store s'"
proof (cases req)
  case (ListOffers limit)
  with assms show ?thesis by (simp add: list_offers_ok wf_purged)
next
  case (SearchOffers q loc radius pensum limit)
  with assms show ?thesis by (simp add: search_offers_ok wf_purged)
next
  case (SaveOffer p)
  with wf_save [OF assms, of now p] show ?thesis by (simp add: save_offer_def)
next
  case (HideOffer p)
  with wf_hide [OF assms, of now p] show ?thesis by (simp add: hide_offer_def)
qed

lemma serve_ok:
  "wf_store s \<Longrightarrow>
   \<exists>resps s'. serve reqs s = Inr (resps, s') \<and> length resps = length reqs \<and> wf_store s'"
proof (induction reqs arbitrary: s)
  case Nil
  then show ?case by simp
next
  case (Cons r reqs)
  obtain now req where r: "r = (now, req)" by (cases r)
  from route_ok [OF Cons.prems, of now req]
  obtain resp s1 where 1: "route now req s = Inr (resp, s1)" and wf1: "wf_store s1" by blast
  from Cons.IH [OF wf1]
  obtain resps s2 where 2: "serve reqs s1 = Inr (resps, s2)" and len: "length resps = length reqs"
    and wf2: "wf_store s2" by blast
  from r 1 2 len wf2 show ?case by simp
qed

lemma id_fake_job_1: "id_offer (fake_job 1) = ''job-1''"
  by code_simp

lemma id_fake_job_2: "id_offer (fake_job 2) = ''job-2''"
  by code_simp

section \<open>The claims\<close>

text \<open>
  C1. \<open>listActive(limit)\<close> purges, then returns at most \<open>limit\<close> of the catalog
  entries excluded by neither mapping, in catalog order, for every limit. For a limit
  that is not negative this is \<open>list_offers_nonneg_limit\<close>. A negative limit reaches the
  slice \<^verbatim>\<open>available[:limit]\<close> as it is: on the initial store, with limit \<open>-1\<close>, the
  handler returns the first 19 of the 20 offers, which is more than the limit allows.
\<close>

theorem list_offers_negative_limit:
  "list_offers 1700000000000000 (- 1) init_store = Inr (map fake_job [1..<20], init_store) \<and>
   \<not> int (length (map fake_job [1..<20])) \<le> - 1"
  by (simp add: list_offers_def purge_init available_init slice_to_def take_map)

text \<open>
  C2. \<open>search(query, location, limit)\<close> purges, then returns the catalog entries that
  are not excluded and pass the text filters, in catalog order, truncated to at most
  \<open>limit\<close> entries. For a limit that is not negative this is
  \<open>search_offers_nonneg_limit\<close>. With limit \<open>-1\<close> on the initial store, the query
  \<open>sample\<close> and the location \<open>zurich\<close>, all 20 offers pass the filters and the handler
  returns 19 of them.
\<close>

theorem search_offers_negative_limit:
  "search_offers 1700000000000000 ''sample'' ''zurich'' 0 '''' (- 1) init_store
     = Inr (map fake_job [1..<20], init_store) \<and>
   \<not> int (length (map fake_job [1..<20])) \<le> - 1"
proof -
  have "slice_to (- 1) (filter (matches ''sample'' ''zurich'' init_store) (fake_jobs init_store))
          = map fake_job [1..<20]"
    by code_simp
  then show ?thesis
    by (simp add: search_offers_def purge_init)
qed

text \<open>
  C3. An exclusion entry \<open>(k, t)\<close> of either mapping, at a read (\<open>listActive\<close> or
  \<open>search\<close>) at time \<open>now\<close>. If \<open>t\<close> is strictly older than \<open>now\<close> minus 90 days, the
  entry is gone from both mappings after the purge; if moreover no entry of either
  mapping for \<open>k\<close> is unexpired, \<open>k\<close> is a key of neither mapping afterwards, and a
  catalog offer with id \<open>k\<close> is returned by \<open>listActive\<close> when the limit is at least the
  size of the catalog, and by \<open>search\<close> when it also passes the text filters. If \<open>t\<close> is
  not older than that (\<open>t = now - 90 days\<close> included), the entry stays in its mapping and
  no offer with id \<open>k\<close> is returned by either read, whatever the limit and the filters.
\<close>

theorem expiry_boundary:
  assumes wf: "wf_store s"
    and entry: "(k, t) \<in> set (saved_jobs s) \<or> (k, t) \<in> set (hidden_jobs s)"
  shows "\<exists>res res' s'.
      list_offers now limit s = Inr (res, s') \<and>
      search_offers now q loc radius pensum limit s = Inr (res', s') \<and>
      (t < now - days90 \<longrightarrow>
         (k, t) \<notin> set (saved_jobs s') \<and> (k, t) \<notin> set (hidden_jobs s') \<and>
         ((\<forall>t'. (k, t') \<in> set (saved_jobs s) \<union> set (hidden_jobs s) \<longrightarrow> t' < now - days90) \<longrightarrow>
            \<not> dict_contains k (saved_jobs s') \<and> \<not> dict_contains k (hidden_jobs s') \<and>
            (\<forall>job \<in> set (fake_jobs s).
               id_offer job = k \<and> int (length (fake_jobs s)) \<le> limit \<longrightarrow>
               job \<in> set res \<and> (text_match q loc job \<longrightarrow> job \<in> set res')))) \<and>
      (now - days90 \<le> t \<longrightarrow>
         ((k, t) \<in> set (saved_jobs s) \<longrightarrow> (k, t) \<in> set (saved_jobs s')) \<and>
         ((k, t) \<in> set (hidden_jobs s) \<longrightarrow> (k, t) \<in> set (hidden_jobs s')) \<and>
         (\<forall>job \<in> set res \<union> set res'. id_offer job \<noteq> k))"
proof -
  let ?c = "now - days90"
  let ?s' = "purged ?c s"
  let ?res = "slice_to limit (available ?s')"
  let ?res' = "slice_to limit (filter (matches q loc ?s') (fake_jobs s))"
  have l: "list_offers now limit s = Inr (?res, ?s')"
    using wf by (rule list_offers_ok)
  have r: "search_offers now q loc radius pensum limit s = Inr (?res', ?s')"
    using wf by (rule search_offers_ok)
  have gone: "(k, t) \<notin> set (saved_jobs ?s') \<and> (k, t) \<notin> set (hidden_jobs ?s')" if "t < ?c"
    using that by (simp add: purged_fields live_mem)
  have free: "\<not> dict_contains k (saved_jobs ?s') \<and> \<not> dict_contains k (hidden_jobs ?s')"
    if "\<forall>t'. (k, t') \<in> set (saved_jobs s) \<union> set (hidden_jobs s) \<longrightarrow> t' < ?c"
    using that by (auto simp: purged_fields dict_contains_live)
  have vis: "job \<in> set ?res \<and> (text_match q loc job \<longrightarrow> job \<in> set ?res')"
    if all: "\<forall>t'. (k, t') \<in> set (saved_jobs s) \<union> set (hidden_jobs s) \<longrightarrow> t' < ?c"
      and job: "job \<in> set (fake_jobs s)" "id_offer job = k"
      and lim: "int (length (fake_jobs s)) \<le> limit" for job
  proof -
    have av: "job \<in> set (available ?s')"
      using free [OF all] job by (simp add: available_mem purged_fields)
    have "length (available ?s') \<le> length (fake_jobs s)"
      using length_available [of ?s'] by (simp add: purged_fields)
    with lim have "?res = available ?s'"
      by (simp add: slice_to_all)
    with av have 1: "job \<in> set ?res" by simp
    have "int (length (filter (matches q loc ?s') (fake_jobs s))) \<le> limit"
      using lim length_filter_le [of "matches q loc ?s'" "fake_jobs s"] by linarith
    then have "?res' = filter (matches q loc ?s') (fake_jobs s)"
      by (rule slice_to_all)
    moreover have "matches q loc ?s' job" if "text_match q loc job"
      using that free [OF all] job by (simp add: matches_iff)
    ultimately have 2: "text_match q loc job \<longrightarrow> job \<in> set ?res'"
      using job by simp
    from 1 2 show ?thesis ..
  qed
  have kept: "((k, t) \<in> set (saved_jobs s) \<longrightarrow> (k, t) \<in> set (saved_jobs ?s')) \<and>
              ((k, t) \<in> set (hidden_jobs s) \<longrightarrow> (k, t) \<in> set (hidden_jobs ?s'))"
    if "?c \<le> t"
    using that by (simp add: purged_fields live_mem)
  have out: "\<forall>job \<in> set ?res \<union> set ?res'. id_offer job \<noteq> k" if "?c \<le> t"
  proof -
    from that have n: "\<not> t < ?c" by simp
    show ?thesis
    proof
      fix job
      assume "job \<in> set ?res \<union> set ?res'"
      then consider "job \<in> set ?res" | "job \<in> set ?res'" by blast
      then show "id_offer job \<noteq> k"
      proof cases
        case 1
        with entry n show ?thesis by (rule list_result_excludes)
      next
        case 2
        with entry n show ?thesis by (rule search_result_excludes)
      qed
    qed
  qed
  have old: "t < ?c \<longrightarrow>
         (k, t) \<notin> set (saved_jobs ?s') \<and> (k, t) \<notin> set (hidden_jobs ?s') \<and>
         ((\<forall>t'. (k, t') \<in> set (saved_jobs s) \<union> set (hidden_jobs s) \<longrightarrow> t' < ?c) \<longrightarrow>
            \<not> dict_contains k (saved_jobs ?s') \<and> \<not> dict_contains k (hidden_jobs ?s') \<and>
            (\<forall>job \<in> set (fake_jobs s).
               id_offer job = k \<and> int (length (fake_jobs s)) \<le> limit \<longrightarrow>
               job \<in> set ?res \<and> (text_match q loc job \<longrightarrow> job \<in> set ?res')))"
    apply (intro impI conjI ballI)
    subgoal using gone by simp
    subgoal using gone by simp
    subgoal using free by simp
    subgoal using free by simp
    subgoal for job using vis [of job] by simp
    subgoal for job using vis [of job] by simp
    done
  have young: "?c \<le> t \<longrightarrow>
         ((k, t) \<in> set (saved_jobs s) \<longrightarrow> (k, t) \<in> set (saved_jobs ?s')) \<and>
         ((k, t) \<in> set (hidden_jobs s) \<longrightarrow> (k, t) \<in> set (hidden_jobs ?s')) \<and>
         (\<forall>job \<in> set ?res \<union> set ?res'. id_offer job \<noteq> k)"
    apply (intro impI conjI)
    subgoal using kept by simp
    subgoal using kept by simp
    subgoal using out by simp
    done
  show ?thesis
    by (intro exI conjI) (rule l r old young)+
qed

theorem expiry_boundary_witness:
  "wf_store (init_store\<lparr>saved_jobs := [(''job-1'', 0)]\<rparr>) \<and>
   (\<exists>res s'. list_offers 7862400000000 20 (init_store\<lparr>saved_jobs := [(''job-1'', 0)]\<rparr>) = Inr (res, s') \<and>
      (''job-1'', 0) \<notin> set (saved_jobs s') \<and> fake_job 1 \<in> set res) \<and>
   (\<exists>res s'. list_offers 7776000000000 20 (init_store\<lparr>saved_jobs := [(''job-1'', 0)]\<rparr>) = Inr (res, s') \<and>
      (''job-1'', 0) \<in> set (saved_jobs s') \<and> fake_job 1 \<notin> set res)"
proof -
  let ?S = "init_store\<lparr>saved_jobs := [(''job-1'', 0)]\<rparr>"
  have wf: "wf_store ?S"
    by (simp add: wf_store_def init_store_def)
  have e: "(''job-1'', 0) \<in> set (saved_jobs ?S) \<or> (''job-1'', 0) \<in> set (hidden_jobs ?S)"
    by simp
  have cat: "fake_job 1 \<in> set (fake_jobs ?S)" "int (length (fake_jobs ?S)) \<le> 20"
    by (simp_all add: init_store_def)
  have only: "\<forall>t'. (''job-1'', t') \<in> set (saved_jobs ?S) \<union> set (hidden_jobs ?S) \<longrightarrow>
                t' < 7862400000000 - days90"
    by (simp add: init_store_def days90_def)
  have old: "(0::int) < 7862400000000 - days90" and young: "7776000000000 - days90 \<le> (0::int)"
    by (simp_all add: days90_def)
  from expiry_boundary [OF wf e, of 7862400000000 20 "[]" "[]" 0 "[]"] old only cat id_fake_job_1
  have 1: "\<exists>res s'. list_offers 7862400000000 20 ?S = Inr (res, s') \<and>
      (''job-1'', 0) \<notin> set (saved_jobs s') \<and> fake_job 1 \<in> set res"
    by blast
  have e1: "(''job-1'', 0) \<in> set (saved_jobs ?S)"
    by simp
  from expiry_boundary [OF wf e, of 7776000000000 20 "[]" "[]" 0 "[]"] young id_fake_job_1 e1
  have 2: "\<exists>res s'. list_offers 7776000000000 20 ?S = Inr (res, s') \<and>
      (''job-1'', 0) \<in> set (saved_jobs s') \<and> fake_job 1 \<notin> set res"
    by blast
  from wf 1 2 show ?thesis by blast
qed

text \<open>
  The condition on the other mapping is needed. \<open>job-1\<close> was saved at time 0 and hidden
  90 days later; a read on day 91 purges the saved entry, whose age is above 90 days,
  and \<open>job-1\<close>, an offer of the catalog, is still not listed: the hidden entry, one day
  old, excludes it.
\<close>

theorem expiry_other_mapping_counterexample:
  "(''job-1'', 0) \<in> set (saved_jobs
      (init_store\<lparr>saved_jobs := [(''job-1'', 0)], hidden_jobs := [(''job-1'', 7776000000000)]\<rparr>)) \<and>
   (0::int) < 7862400000000 - days90 \<and>
   fake_job 1 \<in> set (fake_jobs
      (init_store\<lparr>saved_jobs := [(''job-1'', 0)], hidden_jobs := [(''job-1'', 7776000000000)]\<rparr>)) \<and>
   id_offer (fake_job 1) = ''job-1'' \<and>
   list_offers 7862400000000 20
      (init_store\<lparr>saved_jobs := [(''job-1'', 0)], hidden_jobs := [(''job-1'', 7776000000000)]\<rparr>)
     = Inr (map fake_job [2..<21], init_store\<lparr>hidden_jobs := [(''job-1'', 7776000000000)]\<rparr>) \<and>
   fake_job 1 \<notin> set (map fake_job [2..<21])"
  by code_simp

text \<open>
  C4. \<open>listActive(limit)\<close> with \<open>limit \<le> 0\<close> returns the empty sequence, and with a
  limit above the number of visible entries it returns them all. Limit \<open>0\<close> and the
  large limits are \<open>list_offers_zero_limit\<close> and \<open>list_offers_large_limit\<close>. With limit
  \<open>-5\<close> on the initial store the handler returns the first 15 offers, not the empty
  sequence.
\<close>

theorem list_offers_nonpositive_limit_nonempty:
  "list_offers 1700000000000000 (- 5) init_store = Inr (map fake_job [1..<16], init_store) \<and>
   map fake_job [1..<16] \<noteq> []"
  by (simp add: list_offers_def purge_init available_init slice_to_def take_map)

text \<open>
  C5. Saving an offer twice, at \<open>t1\<close> and then at \<open>t2\<close>, leaves the store that a single
  save at \<open>t2\<close> leaves: the second call answers with the success message, the time
  stored for the id is \<open>t2\<close>, the mapping has as many entries as after the first call
  and holds each key once, and a read at a time when \<open>t2\<close> is not older than 90 days
  returns no offer with that id. The same holds of hiding and the hidden mapping.
\<close>

theorem save_hide_idempotent:
  assumes wf: "wf_store s"
  shows
    "(let s1 = snd (save_offer t1 p s); r2 = save_offer t2 p s1; s2 = snd r2 in
        r2 = save_offer t2 p s \<and> fst r2 = ''Job saved successfully'' \<and>
        map_of (saved_jobs s2) (id_offer p) = Some t2 \<and>
        length (saved_jobs s2) = length (saved_jobs s1) \<and>
        distinct (map fst (saved_jobs s2)) \<and>
        (now - days90 \<le> t2 \<longrightarrow>
           (\<exists>res res' s'.
              list_offers now limit s2 = Inr (res, s') \<and>
              search_offers now q loc radius pensum limit s2 = Inr (res', s') \<and>
              (\<forall>job \<in> set res \<union> set res'. id_offer job \<noteq> id_offer p)))) \<and>
     (let s1 = snd (hide_offer t1 p s); r2 = hide_offer t2 p s1; s2 = snd r2 in
        r2 = hide_offer t2 p s \<and> fst r2 = ''Job hidden successfully'' \<and>
        map_of (hidden_jobs s2) (id_offer p) = Some t2 \<and>
        length (hidden_jobs s2) = length (hidden_jobs s1) \<and>
        distinct (map fst (hidden_jobs s2)) \<and>
        (now - days90 \<le> t2 \<longrightarrow>
           (\<exists>res res' s'.
              list_offers now limit s2 = Inr (res, s') \<and>
              search_offers now q loc radius pensum limit s2 = Inr (res', s') \<and>
              (\<forall>job \<in> set res \<union> set res'. id_offer job \<noteq> id_offer p))))"
proof -
  let ?k = "id_offer p"
  let ?a1 = "snd (save_offer t1 p s)"
  let ?a2 = "snd (save_offer t2 p ?a1)"
  let ?b1 = "snd (hide_offer t1 p s)"
  let ?b2 = "snd (hide_offer t2 p ?b1)"
  have wfa: "wf_store ?a2" and wfb: "wf_store ?b2"
    using wf by (simp_all add: wf_save wf_hide)
  have a_same: "save_offer t2 p ?a1 = save_offer t2 p s"
    by (simp add: save_offer_def dict_set_twice)
  have b_same: "hide_offer t2 p ?b1 = hide_offer t2 p s"
    by (simp add: hide_offer_def dict_set_twice)
  have a_msg: "fst (save_offer t2 p ?a1) = ''Job saved successfully''"
    by (simp add: save_offer_def)
  have b_msg: "fst (hide_offer t2 p ?b1) = ''Job hidden successfully''"
    by (simp add: hide_offer_def)
  have a_time: "map_of (saved_jobs ?a2) ?k = Some t2"
    by (simp add: save_offer_def map_of_dict_set)
  have b_time: "map_of (hidden_jobs ?b2) ?k = Some t2"
    by (simp add: hide_offer_def map_of_dict_set)
  have a_len: "length (saved_jobs ?a2) = length (saved_jobs ?a1)"
    by (simp add: save_offer_def length_dict_set dict_contains_dict_set)
  have b_len: "length (hidden_jobs ?b2) = length (hidden_jobs ?b1)"
    by (simp add: hide_offer_def length_dict_set dict_contains_dict_set)
  have a_dist: "distinct (map fst (saved_jobs ?a2))"
    using wfa by (simp add: wf_store_def)
  have b_dist: "distinct (map fst (hidden_jobs ?b2))"
    using wfb by (simp add: wf_store_def)
  have a_entry: "(?k, t2) \<in> set (saved_jobs ?a2) \<or> (?k, t2) \<in> set (hidden_jobs ?a2)"
    using map_of_SomeD [OF a_time] by (rule disjI1)
  have b_entry: "(?k, t2) \<in> set (saved_jobs ?b2) \<or> (?k, t2) \<in> set (hidden_jobs ?b2)"
    using map_of_SomeD [OF b_time] by (rule disjI2)
  have a_read: "now - days90 \<le> t2 \<longrightarrow>
           (\<exists>res res' s'.
              list_offers now limit ?a2 = Inr (res, s') \<and>
              search_offers now q loc radius pensum limit ?a2 = Inr (res', s') \<and>
              (\<forall>job \<in> set res \<union> set res'. id_offer job \<noteq> ?k))"
    using reads_exclude_live [OF wfa a_entry] by (rule impI)
  have b_read: "now - days90 \<le> t2 \<longrightarrow>
           (\<exists>res res' s'.
              list_offers now limit ?b2 = Inr (res, s') \<and>
              search_offers now q loc radius pensum limit ?b2 = Inr (res', s') \<and>
              (\<forall>job \<in> set res \<union> set res'. id_offer job \<noteq> ?k))"
    using reads_exclude_live [OF wfb b_entry] by (rule impI)
  show ?thesis
    unfolding Let_def
    by (intro conjI)
       (rule a_same b_same a_msg b_msg a_time b_time a_len b_len a_dist b_dist a_read b_read)+
qed

theorem save_hide_idempotent_witness:
  "wf_store init_store \<and>
   save_offer 2000 (fake_job 2) (snd (save_offer 1000 (fake_job 2) init_store))
     = save_offer 2000 (fake_job 2) init_store \<and>
   saved_jobs (snd (save_offer 2000 (fake_job 2) (snd (save_offer 1000 (fake_job 2) init_store))))
     = [(''job-2'', 2000)] \<and>
   (\<exists>res res' s'.
      list_offers 3000 20
        (snd (save_offer 2000 (fake_job 2) (snd (save_offer 1000 (fake_job 2) init_store))))
        = Inr (res, s') \<and>
      search_offers 3000 ''sample'' [] 0 [] 20
        (snd (save_offer 2000 (fake_job 2) (snd (save_offer 1000 (fake_job 2) init_store))))
        = Inr (res', s') \<and>
      fake_job 2 \<notin> set res \<and> fake_job 2 \<notin> set res')"
proof -
  let ?s2 = "snd (save_offer 2000 (fake_job 2) (snd (save_offer 1000 (fake_job 2) init_store)))"
  note inst = save_hide_idempotent [OF wf_init, of 1000 "fake_job 2" 2000 3000 20 "''sample''" "[]" 0 "[]",
      unfolded Let_def]
  have live: "(3000::int) - days90 \<le> 2000"
    by (simp add: days90_def)
  from inst have 1: "save_offer 2000 (fake_job 2) (snd (save_offer 1000 (fake_job 2) init_store))
     = save_offer 2000 (fake_job 2) init_store"
    by (rule conjunct1 [OF conjunct1])
  then have 2: "saved_jobs ?s2 = [(''job-2'', 2000)]"
    by (simp add: save_offer_def init_store_def id_fake_job_2)
  from inst live id_fake_job_2
  have 3: "\<exists>res res' s'.
      list_offers 3000 20 ?s2 = Inr (res, s') \<and>
      search_offers 3000 ''sample'' [] 0 [] 20 ?s2 = Inr (res', s') \<and>
      fake_job 2 \<notin> set res \<and> fake_job 2 \<notin> set res'"
    by blast
  from wf_init 1 2 3 show ?thesis by blast
qed

text \<open>
  C6. On a store whose mappings hold each key once (the initial store is one, and each
  handler returns one), every handler returns without an exception, whatever its
  arguments: \<open>listActive\<close> and \<open>search\<close> for every limit, query and location, \<open>save\<close>
  and \<open>hide\<close> for every offer, in the catalog or not, whose id is a key of the mapping
  afterwards. So every sequence of requests is served to its end, with one response for
  each request.
\<close>

theorem handlers_total:
  assumes wf: "wf_store s"
  shows "(\<exists>res s'. list_offers now limit s = Inr (res, s') \<and> wf_store s') \<and>
         (\<exists>res s'. search_offers now q loc radius pensum limit s = Inr (res, s') \<and> wf_store s') \<and>
         (\<exists>s'. save_offer now p s = (''Job saved successfully'', s') \<and>
               dict_contains (id_offer p) (saved_jobs s') \<and> wf_store s') \<and>
         (\<exists>s'. hide_offer now p s = (''Job hidden successfully'', s') \<and>
               dict_contains (id_offer p) (hidden_jobs s') \<and> wf_store s') \<and>
         (\<exists>resps s'. serve reqs s = Inr (resps, s') \<and> length resps = length reqs \<and> wf_store s')"
proof (intro conjI)
  show "\<exists>res s'. list_offers now limit s = Inr (res, s') \<and> wf_store s'"
    using wf by (simp add: list_offers_ok wf_purged)
  show "\<exists>res s'. search_offers now q loc radius pensum limit s = Inr (res, s') \<and> wf_store s'"
    using wf by (simp add: search_offers_ok wf_purged)
  show "\<exists>s'. save_offer now p s = (''Job saved successfully'', s') \<and>
               dict_contains (id_offer p) (saved_jobs s') \<and> wf_store s'"
    using wf_save [OF wf, of now p] by (simp add: save_offer_def dict_contains_dict_set)
  show "\<exists>s'. hide_offer now p s = (''Job hidden successfully'', s') \<and>
               dict_contains (id_offer p) (hidden_jobs s') \<and> wf_store s'"
    using wf_hide [OF wf, of now p] by (simp add: hide_offer_def dict_contains_dict_set)
  show "\<exists>resps s'. serve reqs s = Inr (resps, s') \<and> length resps = length reqs \<and> wf_store s'"
    using wf by (rule serve_ok)
qed

theorem handlers_total_witness:
  "id_offer (fake_job 99) \<notin> set (map id_offer (fake_jobs init_store)) \<and>
   wf_store init_store \<and>
   (\<exists>res s'. list_offers 0 (- 7) init_store = Inr (res, s') \<and> wf_store s') \<and>
   (\<exists>res s'. search_offers 0 [] [] 0 [] (- 7) init_store = Inr (res, s') \<and> wf_store s') \<and>
   (\<exists>s'. save_offer 0 (fake_job 99) init_store = (''Job saved successfully'', s') \<and>
         dict_contains (id_offer (fake_job 99)) (saved_jobs s') \<and> wf_store s') \<and>
   (\<exists>s'. hide_offer 0 (fake_job 99) init_store = (''Job hidden successfully'', s') \<and>
         dict_contains (id_offer (fake_job 99)) (hidden_jobs s') \<and> wf_store s') \<and>
   (\<exists>resps s'.
      serve [(0, SaveOffer (fake_job 99)), (1, HideOffer (fake_job 99)), (2, ListOffers (- 7)),
             (3, SearchOffers [] [] 0 [] 1000)] init_store = Inr (resps, s') \<and>
      length resps = length [(0::int, SaveOffer (fake_job 99)), (1, HideOffer (fake_job 99)),
             (2, ListOffers (- 7)), (3, SearchOffers [] [] 0 [] 1000)] \<and> wf_store s')"
proof -
  have unknown: "id_offer (fake_job 99) \<notin> set (map id_offer (fake_jobs init_store))"
    by code_simp
  show ?thesis
    by (rule conjI [OF unknown conjI [OF wf_init handlers_total [OF wf_init]]])
qed

text \<open>
  C7. \<open>save\<close> leaves the catalog and the hidden mapping as they are, sets the time of
  the offer's id in the saved mapping and leaves the entries of every other key as they
  are; \<open>hide\<close> does the same with the two mappings exchanged. A read that returns
  leaves the catalog as it is. After \<open>save\<close> and then \<open>hide\<close> of one offer, its id is a
  key of both mappings.
\<close>

theorem handlers_frame:
  "fake_jobs (snd (save_offer now p s)) = fake_jobs s \<and>
   hidden_jobs (snd (save_offer now p s)) = hidden_jobs s \<and>
   map_of (saved_jobs (snd (save_offer now p s))) = (map_of (saved_jobs s))(id_offer p \<mapsto> now) \<and>
   filter (\<lambda>(k, v). k \<noteq> id_offer p) (saved_jobs (snd (save_offer now p s))) =
     filter (\<lambda>(k, v). k \<noteq> id_offer p) (saved_jobs s) \<and>
   fake_jobs (snd (hide_offer now p s)) = fake_jobs s \<and>
   saved_jobs (snd (hide_offer now p s)) = saved_jobs s \<and>
   map_of (hidden_jobs (snd (hide_offer now p s))) = (map_of (hidden_jobs s))(id_offer p \<mapsto> now) \<and>
   filter (\<lambda>(k, v). k \<noteq> id_offer p) (hidden_jobs (snd (hide_offer now p s))) =
     filter (\<lambda>(k, v). k \<noteq> id_offer p) (hidden_jobs s) \<and>
   (\<forall>res s'. list_offers now limit s = Inr (res, s') \<longrightarrow> fake_jobs s' = fake_jobs s) \<and>
   (\<forall>res s'. search_offers now q loc radius pensum limit s = Inr (res, s') \<longrightarrow>
      fake_jobs s' = fake_jobs s) \<and>
   dict_contains (id_offer p) (saved_jobs (snd (hide_offer now' p (snd (save_offer now p s))))) \<and>
   dict_contains (id_offer p) (hidden_jobs (snd (hide_offer now' p (snd (save_offer now p s)))))"
proof -
  have purge_catalog: "fake_jobs s' = fake_jobs s" if "purge c s = Inr s'" for c s'
    using that by (auto simp: purge_def split: sum.splits)
  have l: "\<forall>res s'. list_offers now limit s = Inr (res, s') \<longrightarrow> fake_jobs s' = fake_jobs s"
    by (auto simp: list_offers_def Let_def split: sum.splits dest: purge_catalog)
  have r: "\<forall>res s'. search_offers now q loc radius pensum limit s = Inr (res, s') \<longrightarrow>
      fake_jobs s' = fake_jobs s"
    by (auto simp: search_offers_def Let_def split: sum.splits dest: purge_catalog)
  show ?thesis
    apply (intro conjI)
    apply (rule l | rule r |
           simp add: save_offer_def hide_offer_def map_of_dict_set others_dict_set
             dict_contains_dict_set)+
    done
qed

theorem handlers_frame_witness:
  "(\<exists>res s'. list_offers 0 10 init_store = Inr (res, s') \<and> fake_jobs s' = fake_jobs init_store) \<and>
   (\<exists>res s'. search_offers 0 ''sample'' [] 0 [] 10 init_store = Inr (res, s') \<and>
      fake_jobs s' = fake_jobs init_store) \<and>
   hidden_jobs (snd (save_offer 5 (fake_job 2) init_store)) = [] \<and>
   saved_jobs (snd (hide_offer 5 (fake_job 2) init_store)) = [] \<and>
   dict_contains ''job-2'' (saved_jobs (snd (hide_offer 6 (fake_job 2) (snd (save_offer 5 (fake_job 2) init_store))))) \<and>
   dict_contains ''job-2'' (hidden_jobs (snd (hide_offer 6 (fake_job 2) (snd (save_offer 5 (fake_job 2) init_store)))))"
proof -
  note inst = handlers_frame [of 5 "fake_job 2" init_store 10 "''sample''" "[]" 0 "[]" 6]
  note inst0 = handlers_frame [of 0 "fake_job 2" init_store 10 "''sample''" "[]" 0 "[]" 6]
  have l: "\<exists>res s'. list_offers 0 10 init_store = Inr (res, s')"
    by (simp add: list_offers_ok wf_init)
  have r: "\<exists>res s'. search_offers 0 ''sample'' [] 0 [] 10 init_store = Inr (res, s')"
    by (simp add: search_offers_ok wf_init)
  from inst0 l have 1: "\<exists>res s'. list_offers 0 10 init_store = Inr (res, s') \<and>
      fake_jobs s' = fake_jobs init_store"
    by blast
  from inst0 r have 2: "\<exists>res s'. search_offers 0 ''sample'' [] 0 [] 10 init_store = Inr (res, s') \<and>
      fake_jobs s' = fake_jobs init_store"
    by blast
  have h0: "hidden_jobs init_store = []" "saved_jobs init_store = []"
    by (simp_all add: init_store_def)
  from inst h0 have 3: "hidden_jobs (snd (save_offer 5 (fake_job 2) init_store)) = []"
    "saved_jobs (snd (hide_offer 5 (fake_job 2) init_store)) = []"
    by simp_all
  from inst id_fake_job_2 have 4:
    "dict_contains ''job-2'' (saved_jobs (snd (hide_offer 6 (fake_job 2) (snd (save_offer 5 (fake_job 2) init_store)))))"
    "dict_contains ''job-2'' (hidden_jobs (snd (hide_offer 6 (fake_job 2) (snd (save_offer 5 (fake_job 2) init_store)))))"
    by simp_all
  from 1 2 3 4 show ?thesis by blast
qed

text \<open>
  C8. The parameters \<open>radius\<close> and \<open>pensum\<close> of \<open>search\<close> have no effect: whatever
  their values, the handler returns the same result and leaves the same store (or
  fails the same way).
\<close>

theorem search_ignores_radius_pensum:
  "search_offers now q loc radius pensum limit s =
   search_offers now q loc radius' pensum' limit s"
  by (simp add: search_offers_def)

text \<open>
  C9. On the default catalog with nothing saved or hidden, at any time, the search for
  \<open>Sample Job 3\<close> (no location, radius 0, no pensum, limit 10: the defaults of the
  handler) returns the single offer \<open>job-3\<close>, and the search for \<open>nonexistent-zzz\<close>
  returns nothing.
\<close>

theorem search_default_catalog:
  "search_offers now ''Sample Job 3'' '''' 0 '''' 10 init_store = Inr ([fake_job 3], init_store) \<and>
   id_offer (fake_job 3) = ''job-3'' \<and>
   search_offers now ''nonexistent-zzz'' '''' 0 '''' 10 init_store = Inr ([], init_store)"
proof -
  have a: "slice_to 10 (filter (matches ''Sample Job 3'' '''' init_store) (fake_jobs init_store))
           = [fake_job 3]"
    by code_simp
  have b: "slice_to 10 (filter (matches ''nonexistent-zzz'' '''' init_store) (fake_jobs init_store))
           = []"
    by code_simp
  have c: "id_offer (fake_job 3) = ''job-3''"
    by code_simp
  show ?thesis
    by (simp add: search_offers_def purge_init a b c)
qed

text \<open>
  C10. With an empty query and an empty location, \<open>search\<close> is \<open>listActive\<close> with the
  same limit: the same result and the same store afterwards, for every store, limit
  and time.
\<close>

theorem search_no_filters_is_list:
  "search_offers now [] [] radius pensum limit s = list_offers now limit s"
  by (simp add: search_offers_def list_offers_def available_def matches_no_filters
        split: sum.splits)

end
